theory Spec2Isabelle
  imports Complex_Main "HOL-Library.Monad_Syntax" "HOL-Library.Multiset" "HOL-Library.Char_ord"
    "HOL-Library.List_Lexorder" "HOL-Library.Product_Lexorder"
begin

section \<open>Text, character classes and regular expressions\<close>

text \<open>
  A Python \<open>str\<close> is a sequence of code points. The lines of a mark sheet are modelled as
  \<^typ>\<open>string\<close>, one \<^typ>\<open>char\<close> per code point, which covers the code points 0 to 255.
  The three classes below are what Python's \<open>re\<close> module (and \<open>str.strip\<close>) say about
  exactly these code points: \<open>\d\<close> and \<open>[0-9]\<close> are the ten ASCII digits, \<open>\s\<close> is the
  Unicode white space, \<open>\w\<close> is the Unicode alphanumerics and the underscore.
\<close>

definition code :: "char \<Rightarrow> nat" where
  "code c = of_char c"

definition py_digit :: "char \<Rightarrow> bool" where
  "py_digit c = (48 \<le> code c \<and> code c \<le> 57)"

definition py_space :: "char \<Rightarrow> bool" where
  "py_space c = (code c \<in> {9, 10, 11, 12, 13, 28, 29, 30, 31, 32, 133, 160})"

definition py_upper :: "char \<Rightarrow> bool" where
  "py_upper c = (65 \<le> code c \<and> code c \<le> 90)"

definition py_word :: "char \<Rightarrow> bool" where
  "py_word c =
     (py_digit c \<or> py_upper c \<or> (97 \<le> code c \<and> code c \<le> 122) \<or> code c = 95
      \<or> code c \<in> {170, 178, 179, 181, 185, 186, 188, 189, 190}
      \<or> (192 \<le> code c \<and> code c \<le> 214) \<or> (216 \<le> code c \<and> code c \<le> 246)
      \<or> 248 \<le> code c)"

text \<open>
  A regular expression is run the way a backtracking matcher runs it: every piece of a
  pattern maps a start position in the subject to the list of positions where it can end,
  in the order in which the matcher tries them (greedy pieces the longest first, lazy ones
  the shortest first). A sequence of pieces is the list monad's bind, and the match that
  \<open>re.search\<close> reports is the head of the list at the leftmost position where the list is
  not empty.
\<close>

type_synonym matcher = "string \<Rightarrow> nat \<Rightarrow> nat list"

definition bnd :: matcher where
  \<comment> \<open>\<open>\b\<close>: exactly one of the two neighbours is a word character\<close>
  "bnd s p =
     (if (0 < p \<and> p \<le> length s \<and> py_word (s ! (p - 1))) \<noteq> (p < length s \<and> py_word (s ! p))
      then [p] else [])"

definition cls :: "(char \<Rightarrow> bool) \<Rightarrow> matcher" where
  \<comment> \<open>one character of a class\<close>
  "cls P s p = (if p < length s \<and> P (s ! p) then [Suc p] else [])"

definition lit :: "string \<Rightarrow> matcher" where
  \<comment> \<open>literal text\<close>
  "lit w s p = (if take (length w) (drop p s) = w then [p + length w] else [])"

definition rep12 :: "(char \<Rightarrow> bool) \<Rightarrow> matcher" where
  \<comment> \<open>\<open>X{1,2}\<close>, greedy: two characters are tried before one\<close>
  "rep12 P s p = do { q \<leftarrow> cls P s p; cls P s q @ [q] }"

definition rep_n :: "nat \<Rightarrow> (char \<Rightarrow> bool) \<Rightarrow> matcher" where
  \<comment> \<open>\<open>X{n}\<close>\<close>
  "rep_n n P s p = (if p + n \<le> length s \<and> list_all P (take n (drop p s)) then [p + n] else [])"

definition run :: "(char \<Rightarrow> bool) \<Rightarrow> string \<Rightarrow> nat \<Rightarrow> nat" where
  \<comment> \<open>the number of characters of the class that start at the position\<close>
  "run P s p = length (takeWhile P (drop p s))"

definition plus_greedy :: "(char \<Rightarrow> bool) \<Rightarrow> matcher" where
  \<comment> \<open>\<open>X+\<close>: the whole run first, then ever shorter ones, down to one character\<close>
  "plus_greedy P s p = rev (map (\<lambda>k. p + k) [1 ..< Suc (run P s p)])"

definition plus_lazy :: "(char \<Rightarrow> bool) \<Rightarrow> matcher" where
  \<comment> \<open>\<open>X+?\<close>: one character first, then ever longer runs\<close>
  "plus_lazy P s p = map (\<lambda>k. p + k) [1 ..< Suc (run P s p)]"

definition sub :: "string \<Rightarrow> nat \<Rightarrow> nat \<Rightarrow> string" where
  \<comment> \<open>the text of a group, \<open>s[p:q]\<close>\<close>
  "sub s p q = take (q - p) (drop p s)"

fun first_match :: "(nat \<Rightarrow> 'a list) \<Rightarrow> nat list \<Rightarrow> 'a option" where
  "first_match f [] = None"
| "first_match f (p # ps) = (case f p of [] \<Rightarrow> first_match f ps | x # _ \<Rightarrow> Some x)"

definition re_search :: "(string \<Rightarrow> nat \<Rightarrow> 'a list) \<Rightarrow> string \<Rightarrow> 'a option" where
  \<comment> \<open>\<open>re.search\<close>: start positions from left to right, the end of the string included\<close>
  "re_search f s = first_match (f s) [0 ..< Suc (length s)]"

definition py_int :: "string \<Rightarrow> int" where
  \<comment> \<open>\<open>int\<close> of a string of ASCII digits\<close>
  "py_int ds = foldl (\<lambda>n c. 10 * n + (int (code c) - 48)) 0 ds"

definition strip :: "string \<Rightarrow> string" where
  "strip s = rev (dropWhile py_space (rev (dropWhile py_space s)))"

fun contains :: "string \<Rightarrow> string \<Rightarrow> bool" where
  \<comment> \<open>\<open>w in s\<close>\<close>
  "contains w [] = (w = [])"
| "contains w (c # cs) = (take (length w) (c # cs) = w \<or> contains w cs)"

fun split_nl :: "string \<Rightarrow> string list" where
  \<comment> \<open>\<open>text.split('\n')\<close>\<close>
  "split_nl [] = [[]]"
| "split_nl (c # cs) =
     (if c = CHR 0x0A then [] # split_nl cs
      else (case split_nl cs of [] \<Rightarrow> [[c]] | l # ls \<Rightarrow> (c # l) # ls))"

section \<open>The three patterns of the extraction\<close>

definition enrollment_at :: "string \<Rightarrow> nat \<Rightarrow> string list" where
  \<comment> \<open>\<open>\b(2[34]14[0-9]{8})\b\<close>\<close>
  "enrollment_at s p = do {
     a \<leftarrow> bnd s p;
     b \<leftarrow> lit ''2'' s a;
     c \<leftarrow> cls (\<lambda>x. x = CHR ''3'' \<or> x = CHR ''4'') s b;
     d \<leftarrow> lit ''14'' s c;
     e \<leftarrow> rep_n 8 py_digit s d;
     _ \<leftarrow> bnd s e;
     [sub s a e] }"

definition enrollment_match :: "string \<Rightarrow> string option" where
  "enrollment_match line = re_search enrollment_at line"

definition name_at :: "string \<Rightarrow> nat \<Rightarrow> string list" where
  \<comment> \<open>\<open>CSE\(AIML\)\s+D[12]\s+(.+?)\s+[A-Z]{3}\<close>; the dot is any character but the newline\<close>
  "name_at s p = do {
     a \<leftarrow> lit ''CSE(AIML)'' s p;
     b \<leftarrow> plus_greedy py_space s a;
     c \<leftarrow> lit ''D'' s b;
     d \<leftarrow> cls (\<lambda>x. x = CHR ''1'' \<or> x = CHR ''2'') s c;
     e \<leftarrow> plus_greedy py_space s d;
     f \<leftarrow> plus_lazy (\<lambda>x. x \<noteq> CHR 0x0A) s e;
     g \<leftarrow> plus_greedy py_space s f;
     _ \<leftarrow> rep_n 3 py_upper s g;
     [sub s e f] }"

definition name_match :: "string \<Rightarrow> string option" where
  "name_match line = re_search name_at line"

definition marks_at :: "string \<Rightarrow> nat \<Rightarrow> (string \<times> string \<times> string) list" where
  \<comment> \<open>\<open>\b(\d{1,2})\s+(\d{1,2})\s+(\d{1,2})\b\<close>\<close>
  "marks_at s p = do {
     a \<leftarrow> bnd s p;
     a' \<leftarrow> rep12 py_digit s a;
     b \<leftarrow> plus_greedy py_space s a';
     b' \<leftarrow> rep12 py_digit s b;
     c \<leftarrow> plus_greedy py_space s b';
     c' \<leftarrow> rep12 py_digit s c;
     _ \<leftarrow> bnd s c';
     [(sub s a a', sub s b b', sub s c c')] }"

definition marks_match :: "string \<Rightarrow> (int \<times> int \<times> int) option" where
  \<comment> \<open>the match, with the three groups already through \<open>int\<close>\<close>
  "marks_match check_line =
     map_option (\<lambda>(g1, g2, g3). (py_int g1, py_int g2, py_int g3)) (re_search marks_at check_line)"

section \<open>Extraction of the records of one document\<close>

text \<open>
  A row of the extracted table. The dictionary of a present student has no \<open>Status\<close> key;
  the one of an absent student has \<open>Status\<close> set to \<open>Absent\<close>.
\<close>

record mark_row =
  Enrollment_No :: string
  Name :: string
  Section_A :: int
  Section_B :: int
  Total_Marks :: int
  Source_File :: string
  Status :: "string option"

definition marks_consistent :: "int \<Rightarrow> int \<Rightarrow> int \<Rightarrow> bool" where
  \<comment> \<open>the validation of a triple: the total is the sum of the sections, one mark of tolerance\<close>
  "marks_consistent section_a section_b total_marks = (\<bar>(section_a + section_b) - total_marks\<bar> \<le> 1)"

definition check_marks :: "string \<Rightarrow> (int \<times> int \<times> int) option" where
  \<comment> \<open>the body of the loop over the offsets, for one line: the triple it appends, if any\<close>
  "check_marks check_line =
     (case marks_match check_line of
        None \<Rightarrow> None
      | Some (section_a, section_b, total_marks) \<Rightarrow>
          if marks_consistent section_a section_b total_marks then Some (section_a, section_b, total_marks)
          else None)"

fun scan_offsets :: "string list \<Rightarrow> nat \<Rightarrow> nat list \<Rightarrow> (int \<times> int \<times> int) option" where
  \<comment> \<open>\<open>for offset in ...\<close>: the \<open>break\<close> sits inside the validated branch\<close>
  "scan_offsets lines i [] = None"
| "scan_offsets lines i (offset # rest) =
     (if i + offset < length lines then
        (case check_marks (lines ! (i + offset)) of
           Some triple \<Rightarrow> Some triple
         | None \<Rightarrow> scan_offsets lines i rest)
      else scan_offsets lines i rest)"

definition find_marks :: "string list \<Rightarrow> nat \<Rightarrow> (int \<times> int \<times> int) option" where
  \<comment> \<open>\<open>for offset in range(4)\<close>\<close>
  "find_marks lines i = scan_offsets lines i [0 ..< 4]"

definition present_row :: "string \<Rightarrow> string \<Rightarrow> string \<Rightarrow> int \<times> int \<times> int \<Rightarrow> mark_row" where
  "present_row file enrollment_no name triple =
     (case triple of (section_a, section_b, total_marks) \<Rightarrow>
        \<lparr>Enrollment_No = enrollment_no, Name = name, Section_A = section_a,
         Section_B = section_b, Total_Marks = total_marks, Source_File = file, Status = None\<rparr>)"

definition absent_row :: "string \<Rightarrow> string \<Rightarrow> string \<Rightarrow> mark_row" where
  "absent_row file enrollment_no name =
     \<lparr>Enrollment_No = enrollment_no, Name = name, Section_A = 0, Section_B = 0,
      Total_Marks = 0, Source_File = file, Status = Some ''Absent''\<rparr>"

definition resolve_name :: "string \<Rightarrow> string" where
  "resolve_name line = (case name_match line of Some g \<Rightarrow> strip g | None \<Rightarrow> ''Unknown'')"

definition process_line :: "string \<Rightarrow> string list \<Rightarrow> nat \<Rightarrow> mark_row list" where
  \<comment> \<open>the body of the loop over the lines: what line \<open>i\<close> appends to \<open>data\<close>\<close>
  "process_line file lines i =
     (case enrollment_match (lines ! i) of
        None \<Rightarrow> []
      | Some enrollment_no \<Rightarrow>
          (let name = resolve_name (lines ! i) in
           case find_marks lines i of
             Some triple \<Rightarrow> [present_row file enrollment_no name triple]
           | None \<Rightarrow>
               if i + 1 < length lines \<and> contains ''AB'' (lines ! (i + 1))
               then [absent_row file enrollment_no name]
               else []))"

fun lines_loop :: "string \<Rightarrow> string list \<Rightarrow> nat list \<Rightarrow> mark_row list \<Rightarrow> mark_row list" where
  \<comment> \<open>\<open>for i, line in enumerate(lines)\<close>, with the list \<open>data\<close> threaded through\<close>
  "lines_loop file lines [] data = data"
| "lines_loop file lines (i # is) data = lines_loop file lines is (data @ process_line file lines i)"

definition extract_lines :: "string \<Rightarrow> string list \<Rightarrow> mark_row list \<Rightarrow> mark_row list" where
  "extract_lines file lines data = lines_loop file lines [0 ..< length lines] data"

text \<open>
  The text layer is outside the program: opening the document or reading a page may raise,
  and a page may have no text (\<open>None\<close> or the empty string), in which case it is skipped.
\<close>

datatype pdf_error = PdfError string

type_synonym page = "pdf_error + string option"

record uploaded_file =
  file_name :: string
  file_pages :: "pdf_error + page list"

fun pages_loop :: "string \<Rightarrow> page list \<Rightarrow> mark_row list \<Rightarrow> pdf_error + mark_row list" where
  \<comment> \<open>\<open>for page_num, page in enumerate(pdf.pages)\<close>; the windows never cross a page\<close>
  "pages_loop file [] data = Inr data"
| "pages_loop file (Inl e # pages) data = Inl e"
| "pages_loop file (Inr None # pages) data = pages_loop file pages data"
| "pages_loop file (Inr (Some text) # pages) data =
     (if text = [] then pages_loop file pages data
      else pages_loop file pages (extract_lines file (split_nl text) data))"

definition extract_body :: "uploaded_file \<Rightarrow> pdf_error + mark_row list" where
  \<comment> \<open>the \<open>try\<close> block of the extraction\<close>
  "extract_body pdf_file =
     (case file_pages pdf_file of
        Inl e \<Rightarrow> Inl e
      | Inr pages \<Rightarrow> pages_loop (file_name pdf_file) pages [])"

definition extract_marks_from_pdf :: "uploaded_file \<Rightarrow> mark_row list" where
  \<comment> \<open>an exception is reported and the empty table returned\<close>
  "extract_marks_from_pdf pdf_file =
     (case extract_body pdf_file of Inl e \<Rightarrow> [] | Inr data \<Rightarrow> data)"

section \<open>The batch\<close>

fun files_loop :: "uploaded_file list \<Rightarrow> mark_row list list \<Rightarrow> mark_row list list" where
  \<comment> \<open>\<open>for i, uploaded_file in enumerate(uploaded_files)\<close>: only non-empty tables are kept\<close>
  "files_loop [] all_data = all_data"
| "files_loop (uploaded_file # files) all_data =
     (let df = extract_marks_from_pdf uploaded_file in
      if df \<noteq> [] then files_loop files (all_data @ [df]) else files_loop files all_data)"

definition process_multiple_pdfs :: "uploaded_file list \<Rightarrow> mark_row list" where
  "process_multiple_pdfs uploaded_files =
     (let all_data = files_loop uploaded_files [] in
      if all_data \<noteq> [] then concat all_data else [])"

section \<open>Tables: the operations of the data-frame library\<close>









section \<open>Cumulative rankings\<close>






section \<open>The exam-wise view\<close>







section \<open>The window search as the specification words it\<close>

text \<open>
  The specification describes a search that stops at the first line of the window that
  contains a triple, whether the triple validates or not (first found). The two
  definitions below follow these words; they are compared with \<^const>\<open>find_marks\<close>.
\<close>

fun scan_first_found :: "string list \<Rightarrow> nat \<Rightarrow> nat list \<Rightarrow> (int \<times> int \<times> int) option" where
  "scan_first_found lines i [] = None"
| "scan_first_found lines i (offset # rest) =
     (if i + offset < length lines then
        (case marks_match (lines ! (i + offset)) of
           Some triple \<Rightarrow> check_marks (lines ! (i + offset))
         | None \<Rightarrow> scan_first_found lines i rest)
      else scan_first_found lines i rest)"

definition first_found_marks :: "string list \<Rightarrow> nat \<Rightarrow> (int \<times> int \<times> int) option" where
  "first_found_marks lines i = scan_first_found lines i [0 ..< 4]"

text \<open>
  The structural pattern of an identifier, as the specification words it: a code of
  twelve characters, the digit 2, then 3 or 4, then 14, then eight digits. An occurrence
  at a position of a line is delimited when the line starts or ends there, or the
  neighbouring character is not a word character.
\<close>

definition id_shape :: "string \<Rightarrow> bool" where
  "id_shape w =
     (length w = 12 \<and> take 1 w = ''2'' \<and> (w ! 1 = CHR ''3'' \<or> w ! 1 = CHR ''4'')
      \<and> take 2 (drop 2 w) = ''14'' \<and> list_all py_digit (drop 4 w))"

definition id_occurs :: "string \<Rightarrow> nat \<Rightarrow> bool" where
  "id_occurs s p =
     (p + 12 \<le> length s \<and> id_shape (sub s p (p + 12))
      \<and> (p = 0 \<or> \<not> py_word (s ! (p - 1)))
      \<and> (p + 12 = length s \<or> \<not> py_word (s ! (p + 12))))"


lemma scan_offsets_Some:
  "(scan_offsets lines i offs = Some tr) =
     (\<exists>pre k post. offs = pre @ k # post \<and> i + k < length lines
        \<and> check_marks (lines ! (i + k)) = Some tr
        \<and> (\<forall>j \<in> set pre. i + j < length lines \<longrightarrow> check_marks (lines ! (i + j)) = None))"
proof (induction offs)
  case Nil
  then show ?case by simp
next
  case (Cons a offs)
  show ?case
  proof (cases "i + a < length lines \<and> check_marks (lines ! (i + a)) \<noteq> None")
    case True
    then obtain v where v: "check_marks (lines ! (i + a)) = Some v" by auto
    have "(scan_offsets lines i (a # offs) = Some tr) = (v = tr)"
      using True v by simp
    moreover have "(\<exists>pre k post. a # offs = pre @ k # post \<and> i + k < length lines
        \<and> check_marks (lines ! (i + k)) = Some tr
        \<and> (\<forall>j \<in> set pre. i + j < length lines \<longrightarrow> check_marks (lines ! (i + j)) = None)) = (v = tr)"
    proof
      assume "\<exists>pre k post. a # offs = pre @ k # post \<and> i + k < length lines
        \<and> check_marks (lines ! (i + k)) = Some tr
        \<and> (\<forall>j \<in> set pre. i + j < length lines \<longrightarrow> check_marks (lines ! (i + j)) = None)"
      then obtain pre k post where h: "a # offs = pre @ k # post" "i + k < length lines"
        "check_marks (lines ! (i + k)) = Some tr"
        "\<forall>j \<in> set pre. i + j < length lines \<longrightarrow> check_marks (lines ! (i + j)) = None" by blast
      show "v = tr"
      proof (cases pre)
        case Nil
        then show ?thesis using h v by simp
      next
        case (Cons b pre')
        then have "a \<in> set pre" using h(1) by simp
        then show ?thesis using h(4) True by auto
      qed
    next
      assume "v = tr"
      then have "a # offs = [] @ a # offs \<and> i + a < length lines
        \<and> check_marks (lines ! (i + a)) = Some tr
        \<and> (\<forall>j \<in> set []. i + j < length lines \<longrightarrow> check_marks (lines ! (i + j)) = None)"
        using True v by simp
      then show "\<exists>pre k post. a # offs = pre @ k # post \<and> i + k < length lines
        \<and> check_marks (lines ! (i + k)) = Some tr
        \<and> (\<forall>j \<in> set pre. i + j < length lines \<longrightarrow> check_marks (lines ! (i + j)) = None)"
        by blast
    qed
    ultimately show ?thesis by simp
  next
    case False
    then have skip: "scan_offsets lines i (a # offs) = scan_offsets lines i offs"
      by (auto split: option.splits)
    have "(\<exists>pre k post. a # offs = pre @ k # post \<and> i + k < length lines
        \<and> check_marks (lines ! (i + k)) = Some tr
        \<and> (\<forall>j \<in> set pre. i + j < length lines \<longrightarrow> check_marks (lines ! (i + j)) = None))
      = (\<exists>pre k post. offs = pre @ k # post \<and> i + k < length lines
        \<and> check_marks (lines ! (i + k)) = Some tr
        \<and> (\<forall>j \<in> set pre. i + j < length lines \<longrightarrow> check_marks (lines ! (i + j)) = None))"
      (is "?L = ?R")
    proof
      assume ?L
      then obtain pre k post where h: "a # offs = pre @ k # post" "i + k < length lines"
        "check_marks (lines ! (i + k)) = Some tr"
        "\<forall>j \<in> set pre. i + j < length lines \<longrightarrow> check_marks (lines ! (i + j)) = None" by blast
      show ?R
      proof (cases pre)
        case Nil
        then show ?thesis using h False by auto
      next
        case (Cons b pre')
        then have "offs = pre' @ k # post" and "set pre' \<subseteq> set pre" using h(1) by auto
        then show ?thesis using h by blast
      qed
    next
      assume ?R
      then obtain pre k post where h: "offs = pre @ k # post" "i + k < length lines"
        "check_marks (lines ! (i + k)) = Some tr"
        "\<forall>j \<in> set pre. i + j < length lines \<longrightarrow> check_marks (lines ! (i + j)) = None" by blast
      have "a # offs = (a # pre) @ k # post" using h(1) by simp
      moreover have "i + a < length lines \<longrightarrow> check_marks (lines ! (i + a)) = None"
        using False by blast
      then have "\<forall>j \<in> set (a # pre). i + j < length lines \<longrightarrow> check_marks (lines ! (i + j)) = None"
        using h(4) by simp
      ultimately show ?L using h(2,3) by blast
    qed
    then show ?thesis using skip Cons.IH by simp
  qed
qed

lemma upt_split_at: "[0 ..< n] = pre @ k # post \<Longrightarrow> pre = [0 ..< k] \<and> k < n"
proof -
  assume h: "[0 ..< n] = pre @ k # post"
  have len: "length pre < n" using arg_cong[OF h, of length] by simp
  have "k = [0 ..< n] ! length pre" using h by simp
  then have k: "k = length pre" using len by simp
  have "pre = take (length pre) [0 ..< n]" using h by simp
  then have "pre = [0 ..< length pre]" using len by (simp add: take_upt)
  then show ?thesis using k len by simp
qed

lemma upt_cut: "k < n \<Longrightarrow> [0 ..< n] = [0 ..< k] @ k # [Suc k ..< n]"
proof -
  assume k: "k < n"
  have "[0 ..< k + (n - k)] = [0 ..< k] @ [k ..< k + (n - k)]"
    by (rule upt_add_eq_append) simp
  moreover have "[k ..< n] = k # [Suc k ..< n]" using k by (simp add: upt_conv_Cons)
  ultimately show ?thesis using k by simp
qed

lemma find_marks_Some:
  "(find_marks lines i = Some tr) =
     (\<exists>k<4. i + k < length lines \<and> check_marks (lines ! (i + k)) = Some tr
         \<and> (\<forall>j<k. check_marks (lines ! (i + j)) = None))"
proof
  assume "find_marks lines i = Some tr"
  then obtain pre k post where h: "[0 ..< 4] = pre @ k # post" "i + k < length lines"
        "check_marks (lines ! (i + k)) = Some tr"
        "\<forall>j \<in> set pre. i + j < length lines \<longrightarrow> check_marks (lines ! (i + j)) = None"
    unfolding find_marks_def scan_offsets_Some by blast
  from upt_split_at[OF h(1)] have p: "pre = [0 ..< k]" "k < 4" by auto
  have "\<forall>j<k. check_marks (lines ! (i + j)) = None" using h(4) h(2) p(1) by auto
  then show "\<exists>k<4. i + k < length lines \<and> check_marks (lines ! (i + k)) = Some tr
         \<and> (\<forall>j<k. check_marks (lines ! (i + j)) = None)" using h(2,3) p(2) by blast
next
  assume "\<exists>k<4. i + k < length lines \<and> check_marks (lines ! (i + k)) = Some tr
         \<and> (\<forall>j<k. check_marks (lines ! (i + j)) = None)"
  then obtain k where k: "k < 4" "i + k < length lines" "check_marks (lines ! (i + k)) = Some tr"
     "\<forall>j<k. check_marks (lines ! (i + j)) = None" by blast
  have "[0 ..< 4] = [0 ..< k] @ k # [Suc k ..< 4]" using k(1) by (rule upt_cut)
  moreover have "\<forall>j \<in> set [0 ..< k]. i + j < length lines \<longrightarrow> check_marks (lines ! (i + j)) = None"
    using k(4) by simp
  ultimately show "find_marks lines i = Some tr"
    unfolding find_marks_def scan_offsets_Some using k(2,3) by blast
qed



section \<open>The validation of a triple\<close>



section \<open>Absent students\<close>

lemma contains_iff: "contains w s = (\<exists>u v. s = u @ w @ v)"
proof (induction s)
  case Nil
  then show ?case by auto
next
  case (Cons c cs)
  have pre: "(take (length w) (c # cs) = w) = (\<exists>v. c # cs = w @ v)"
    by (metis append_eq_conv_conj)
  have "(\<exists>u v. c # cs = u @ w @ v) = ((\<exists>v. c # cs = w @ v) \<or> (\<exists>u v. cs = u @ w @ v))"
  proof
    assume "\<exists>u v. c # cs = u @ w @ v"
    then obtain u v where uv: "c # cs = u @ w @ v" by blast
    show "(\<exists>v. c # cs = w @ v) \<or> (\<exists>u v. cs = u @ w @ v)"
    proof (cases u)
      case Nil
      then show ?thesis using uv by auto
    next
      case (Cons d u')
      then have "cs = u' @ w @ v" using uv by simp
      then show ?thesis by blast
    qed
  next
    assume "(\<exists>v. c # cs = w @ v) \<or> (\<exists>u v. cs = u @ w @ v)"
    then show "\<exists>u v. c # cs = u @ w @ v"
    proof
      assume "\<exists>v. c # cs = w @ v"
      then obtain v where "c # cs = [] @ w @ v" by auto
      then show ?thesis by blast
    next
      assume "\<exists>u v. cs = u @ w @ v"
      then obtain u v where "c # cs = (c # u) @ w @ v" by auto
      then show ?thesis by blast
    qed
  qed
  then show ?case using pre Cons.IH by simp
qed

text \<open>
  Claim C10. When line \<open>i\<close> bears an identifier and no line of its window yields a
  validated triple, the line appends the all-zero record with status \<open>Absent\<close> exactly
  when line \<open>i + 1\<close> exists and has the two characters \<open>AB\<close> somewhere in it, and it
  appends nothing otherwise. No line but \<open>i\<close> and \<open>i + 1\<close> enters the result.
\<close>

theorem absent_record_iff_next_line_has_AB:
  assumes "i < length lines" and "enrollment_match (lines ! i) = Some enrollment_no"
    and "find_marks lines i = None"
  shows "process_line file lines i =
     (if i + 1 < length lines \<and> (\<exists>u v. lines ! (i + 1) = u @ ''AB'' @ v)
      then [\<lparr>Enrollment_No = enrollment_no, Name = resolve_name (lines ! i), Section_A = 0,
             Section_B = 0, Total_Marks = 0, Source_File = file, Status = Some ''Absent''\<rparr>]
      else [])"
  using assms(2,3) by (simp add: process_line_def absent_row_def contains_iff)

text \<open>
  The marker inside a longer word counts; a marker two lines below the identifier does not.
\<close>

theorem absent_record_iff_next_line_has_AB_witness:
  "process_line ''a.pdf'' [''231430142054'', ''CRAB'', ''AB AB AB''] 0 =
     [\<lparr>Enrollment_No = ''231430142054'', Name = ''Unknown'', Section_A = 0,
       Section_B = 0, Total_Marks = 0, Source_File = ''a.pdf'', Status = Some ''Absent''\<rparr>]
   \<and> process_line ''a.pdf'' [''231430142054'', ''absent'', ''AB AB AB''] 0 = []"
proof -
  have e: "enrollment_match ''231430142054'' = Some ''231430142054''" by code_simp
  have n: "resolve_name ''231430142054'' = ''Unknown''" by code_simp
  have f1: "find_marks [''231430142054'', ''CRAB'', ''AB AB AB''] 0 = None" by code_simp
  have f2: "find_marks [''231430142054'', ''absent'', ''AB AB AB''] 0 = None" by code_simp
  have c1: "\<exists>u v. ''CRAB'' = u @ ''AB'' @ v"
    unfolding contains_iff [symmetric] by code_simp
  have c2: "\<not> (\<exists>u v. ''absent'' = u @ ''AB'' @ v)"
    unfolding contains_iff [symmetric] by code_simp
  have r1: "process_line ''a.pdf'' [''231430142054'', ''CRAB'', ''AB AB AB''] 0 =
     [\<lparr>Enrollment_No = ''231430142054'', Name = ''Unknown'', Section_A = 0,
       Section_B = 0, Total_Marks = 0, Source_File = ''a.pdf'', Status = Some ''Absent''\<rparr>]"
    using absent_record_iff_next_line_has_AB
            [of 0 "[''231430142054'', ''CRAB'', ''AB AB AB'']" "''231430142054''" "''a.pdf''"]
          e n f1 c1 by simp
  have r2: "process_line ''a.pdf'' [''231430142054'', ''absent'', ''AB AB AB''] 0 = []"
    using absent_record_iff_next_line_has_AB
            [of 0 "[''231430142054'', ''absent'', ''AB AB AB'']" "''231430142054''" "''a.pdf''"]
          e f2 c2 by simp
  show ?thesis using r1 r2 by simp
qed

section \<open>The window search\<close>




text \<open>
  Claim C5, as the code has it. The search for the triple of the identifier on line \<open>i\<close>
  reads the lines \<open>i\<close> to \<open>i + 3\<close> of the page and nothing else: two pages that agree on
  these four positions give the same result. The offsets are tried in order and the result is
  the triple of the first line of the window whose triple validates; a line whose triple
  is rejected does not stop the search.
\<close>

theorem window_is_four_lines_first_valid_wins:
  "((\<forall>k<4. (i + k < length lines) = (i + k < length lines')
             \<and> (i + k < length lines \<longrightarrow> lines ! (i + k) = lines' ! (i + k)))
      \<longrightarrow> find_marks lines i = find_marks lines' i)
   \<and> ((find_marks lines i = Some tr) =
        (\<exists>k<4. i + k < length lines \<and> check_marks (lines ! (i + k)) = Some tr
            \<and> (\<forall>j<k. check_marks (lines ! (i + j)) = None)))"
proof -
  have four: "[0 ..< 4] = [0, 1, 2, Suc 2]" by (simp add: upt_rec)
  have same: "find_marks lines i = find_marks lines' i"
    if h: "\<forall>k<4. (i + k < length lines) = (i + k < length lines')
             \<and> (i + k < length lines \<longrightarrow> lines ! (i + k) = lines' ! (i + k))"
  proof -
    have h0: "(i + 0 < length lines) = (i + 0 < length lines')
        \<and> (i + 0 < length lines \<longrightarrow> lines ! (i + 0) = lines' ! (i + 0))"
      using h [THEN spec, of 0] by simp
    have h1: "(i + 1 < length lines) = (i + 1 < length lines')
        \<and> (i + 1 < length lines \<longrightarrow> lines ! (i + 1) = lines' ! (i + 1))"
      using h [THEN spec, of 1] by simp
    have h2: "(i + 2 < length lines) = (i + 2 < length lines')
        \<and> (i + 2 < length lines \<longrightarrow> lines ! (i + 2) = lines' ! (i + 2))"
      using h [THEN spec, of 2] by simp
    have h3: "(i + Suc 2 < length lines) = (i + Suc 2 < length lines')
        \<and> (i + Suc 2 < length lines \<longrightarrow> lines ! (i + Suc 2) = lines' ! (i + Suc 2))"
      using h [THEN spec, of 3] by simp
    show ?thesis
      unfolding find_marks_def four scan_offsets.simps
      using h0 h1 h2 h3 by (simp split: option.splits)
  qed
  show ?thesis using same find_marks_Some [of lines i tr] by blast
qed

text \<open>A valid triple at offset 4 is not matched, the same triple at offset 3 is.\<close>

theorem window_is_four_lines_first_valid_wins_witness:
  "find_marks [''231430142054'', ''x'', ''y'', ''z'', ''10 20 30''] 0 = None
   \<and> find_marks [''231430142054'', ''x'', ''y'', ''10 20 30''] 0 = Some (10, 20, 30)"
proof -
  have a: "find_marks [''231430142054'', ''x'', ''y'', ''z''] 0 = None" by code_simp
  have b: "\<forall>k<4. (0 + k < length [''231430142054'', ''x'', ''y'', ''z'', ''10 20 30''])
              = (0 + k < length [''231430142054'', ''x'', ''y'', ''z''])
           \<and> (0 + k < length [''231430142054'', ''x'', ''y'', ''z'', ''10 20 30'']
              \<longrightarrow> [''231430142054'', ''x'', ''y'', ''z'', ''10 20 30''] ! (0 + k)
                    = [''231430142054'', ''x'', ''y'', ''z''] ! (0 + k))"
    by (simp add: nth_Cons' less_Suc_eq numeral_eq_Suc)
  have c0: "check_marks ''231430142054'' = None" by code_simp
  have c1: "check_marks ''x'' = None" by code_simp
  have c2: "check_marks ''y'' = None" by code_simp
  have c3: "check_marks ''10 20 30'' = Some (10, 20, 30)" by code_simp
  have d: "\<exists>k<4. 0 + k < length [''231430142054'', ''x'', ''y'', ''10 20 30'']
            \<and> check_marks ([''231430142054'', ''x'', ''y'', ''10 20 30''] ! (0 + k)) = Some (10, 20, 30)
            \<and> (\<forall>j<k. check_marks ([''231430142054'', ''x'', ''y'', ''10 20 30''] ! (0 + j)) = None)"
  proof -
    have "\<forall>j<3. check_marks ([''231430142054'', ''x'', ''y'', ''10 20 30''] ! (0 + j)) = None"
      using c0 c1 c2 by (simp add: nth_Cons' less_Suc_eq numeral_eq_Suc)
    moreover have "check_marks ([''231430142054'', ''x'', ''y'', ''10 20 30''] ! (0 + 3)) = Some (10, 20, 30)"
      using c3 by simp
    ultimately show ?thesis by (intro exI [of _ 3]) simp
  qed
  show ?thesis
    using window_is_four_lines_first_valid_wins
            [of 0 "[''231430142054'', ''x'', ''y'', ''z'', ''10 20 30'']"
                "[''231430142054'', ''x'', ''y'', ''z'']" "(10, 20, 30)"]
          window_is_four_lines_first_valid_wins
            [of 0 "[''231430142054'', ''x'', ''y'', ''10 20 30'']"
                "[''231430142054'', ''x'', ''y'', ''10 20 30'']" "(10, 20, 30)"]
          a b d
    by simp
qed

text \<open>
  Claim C5, as it is stated, fails in its stopping rule: the first line of the window
  that contains a triple is at offset 1, the triple is rejected, and the search does not
  stop there but returns the triple at offset 3.
\<close>

theorem stops_at_first_triple_counterexample:
  "marks_match ''231430142054'' = None
   \<and> marks_match ''7 8 99'' = Some (7, 8, 99)
   \<and> first_found_marks [''231430142054'', ''7 8 99'', ''x'', ''5 6 11''] 0 = None
   \<and> find_marks [''231430142054'', ''7 8 99'', ''x'', ''5 6 11''] 0 = Some (5, 6, 11)"
  by code_simp

section \<open>Repeated identifiers in one document\<close>








section \<open>The batch of documents\<close>

lemma files_loop_filter:
  "files_loop files all_data = all_data @ filter (\<lambda>df. df \<noteq> []) (map extract_marks_from_pdf files)"
  by (induction files arbitrary: all_data) (simp_all add: Let_def)

lemma concat_filter_nonempty: "concat (filter (\<lambda>df. df \<noteq> []) dfs) = concat dfs"
  by (induction dfs) simp_all

lemma pages_loop_raises: "Inl e \<in> set pages \<Longrightarrow> \<exists>e'. pages_loop file pages data = Inl e'"
  by (induction "file" pages data rule: pages_loop.induct) auto

text \<open>
  Claim C9. The batch is a total function: every exception of the extraction is caught
  and turned into the empty table. Its result is the concatenation, in the order of the
  documents, of the records of the documents whose extraction did not raise; a document
  that cannot be opened, or one of whose pages raises, contributes no record; and when
  no document yields a record the result is the empty table.
\<close>

theorem batch_keeps_readable_documents_in_order:
  "process_multiple_pdfs uploaded_files =
     concat (map (\<lambda>f. case extract_body f of Inl e \<Rightarrow> [] | Inr data \<Rightarrow> data) uploaded_files)
   \<and> (\<forall>f e. file_pages f = Inl e \<longrightarrow> extract_body f = Inl e)
   \<and> (\<forall>f pages e. file_pages f = Inr pages \<and> Inl e \<in> set pages \<longrightarrow> (\<exists>e'. extract_body f = Inl e'))
   \<and> ((\<forall>f \<in> set uploaded_files. extract_marks_from_pdf f = []) \<longrightarrow>
         process_multiple_pdfs uploaded_files = [])"
proof -
  have eq: "extract_marks_from_pdf = (\<lambda>f. case extract_body f of Inl e \<Rightarrow> [] | Inr data \<Rightarrow> data)"
    by (rule ext) (simp add: extract_marks_from_pdf_def)
  have "process_multiple_pdfs uploaded_files =
      concat (filter (\<lambda>df. df \<noteq> []) (map extract_marks_from_pdf uploaded_files))"
    by (auto simp: process_multiple_pdfs_def files_loop_filter Let_def)
  then have a: "process_multiple_pdfs uploaded_files = concat (map extract_marks_from_pdf uploaded_files)"
    by (simp only: concat_filter_nonempty)
  have b: "\<forall>f e. file_pages f = Inl e \<longrightarrow> extract_body f = Inl e"
    by (simp add: extract_body_def)
  have c: "\<forall>f pages e. file_pages f = Inr pages \<and> Inl e \<in> set pages \<longrightarrow> (\<exists>e'. extract_body f = Inl e')"
    by (auto simp: extract_body_def dest: pages_loop_raises)
  have d: "(\<forall>f \<in> set uploaded_files. extract_marks_from_pdf f = []) \<longrightarrow>
         process_multiple_pdfs uploaded_files = []"
    unfolding a by simp
  show ?thesis using a b c d unfolding eq by blast
qed

text \<open>Three documents, the second of which cannot be opened.\<close>

theorem batch_keeps_readable_documents_in_order_witness:
  "process_multiple_pdfs
     [\<lparr>file_name = ''a.pdf'', file_pages = Inr [Inr (Some ''231430142054 10 20 30'')]\<rparr>,
      \<lparr>file_name = ''b.pdf'', file_pages = Inl (PdfError ''unreadable'')\<rparr>,
      \<lparr>file_name = ''c.pdf'', file_pages = Inr [Inr None, Inr (Some ''241430142054 11 20 31'')]\<rparr>]
   = [\<lparr>Enrollment_No = ''231430142054'', Name = ''Unknown'', Section_A = 10,
        Section_B = 20, Total_Marks = 30, Source_File = ''a.pdf'', Status = None\<rparr>,
      \<lparr>Enrollment_No = ''241430142054'', Name = ''Unknown'', Section_A = 11,
        Section_B = 20, Total_Marks = 31, Source_File = ''c.pdf'', Status = None\<rparr>]"
proof -
  have "concat (map (\<lambda>f. case extract_body f of Inl e \<Rightarrow> [] | Inr data \<Rightarrow> data)
     [\<lparr>file_name = ''a.pdf'', file_pages = Inr [Inr (Some ''231430142054 10 20 30'')]\<rparr>,
      \<lparr>file_name = ''b.pdf'', file_pages = Inl (PdfError ''unreadable'')\<rparr>,
      \<lparr>file_name = ''c.pdf'', file_pages = Inr [Inr None, Inr (Some ''241430142054 11 20 31'')]\<rparr>])
   = [\<lparr>Enrollment_No = ''231430142054'', Name = ''Unknown'', Section_A = 10,
        Section_B = 20, Total_Marks = 30, Source_File = ''a.pdf'', Status = None\<rparr>,
      \<lparr>Enrollment_No = ''241430142054'', Name = ''Unknown'', Section_A = 11,
        Section_B = 20, Total_Marks = 31, Source_File = ''c.pdf'', Status = None\<rparr>]"
    by code_simp
  then show ?thesis
    by (rule trans [OF batch_keeps_readable_documents_in_order [THEN conjunct1]])
qed

section \<open>The identifier of a line\<close>

lemma first_match_skip:
  "\<forall>r \<in> set pre. f r = [] \<Longrightarrow> first_match f (pre @ rest) = first_match f rest"
  by (induction pre) simp_all

lemma first_match_None: "(first_match f ps = None) = (\<forall>p \<in> set ps. f p = [])"
  by (induction ps) (auto split: list.splits)

lemma py_digit_word: "py_digit c \<Longrightarrow> py_word c"
  by (simp add: py_word_def)

lemma two_is_digit: "py_digit CHR ''2''"
  by (simp add: py_digit_def code_def)

lemma take1_drop: "(take 1 (drop p s) = [c]) = (p < length s \<and> s ! p = c)"
proof (cases "p < length s")
  case True
  then have "drop p s = s ! p # drop (Suc p) s" by (simp add: Cons_nth_drop_Suc)
  then show ?thesis using True by simp
next
  case False
  then show ?thesis by simp
qed

lemma take2_drop: "(take 2 (drop p s) = [c, d]) = (p + 1 < length s \<and> s ! p = c \<and> s ! (p + 1) = d)"
proof (cases "p + 1 < length s")
  case True
  then have "drop p s = s ! p # s ! (p + 1) # drop (p + 2) s"
    by (metis Cons_nth_drop_Suc Suc_eq_plus1 add_2_eq_Suc' add_lessD1)
  then show ?thesis using True by (simp add: numeral_2_eq_2)
next
  case False
  then have "length (take 2 (drop p s)) \<noteq> length [c, d]" by simp
  then have "take 2 (drop p s) \<noteq> [c, d]" by metis
  then show ?thesis using False by simp
qed

lemma all_take_drop:
  "p + n \<le> length s \<Longrightarrow> list_all P (take n (drop p s)) = (\<forall>k<n. P (s ! (p + k)))"
  by (simp add: list_all_length)

lemma pattern_14:
  assumes "p + 12 \<le> length s"
  shows "(take 2 (drop (p + 2) s) = ''14'') = (s ! (p + 2) = CHR ''1'' \<and> s ! (p + 3) = CHR ''4'')"
proof -
  have f: "p + 2 + 1 < length s" using assms by simp
  have "(take 2 (drop (p + 2) s) = ''14'') =
      (p + 2 + 1 < length s \<and> s ! (p + 2) = CHR ''1'' \<and> s ! (p + 2 + 1) = CHR ''4'')"
    by (rule take2_drop)
  moreover have "p + 2 + 1 = p + 3" by simp
  ultimately show ?thesis using f by metis
qed

lemma length_14: "length ''14'' = 2"
  by simp

lemma bnd_mem:
  "a \<in> set (bnd s p) \<Longrightarrow>
     a = p \<and> ((0 < p \<and> p \<le> length s \<and> py_word (s ! (p - 1))) \<noteq> (p < length s \<and> py_word (s ! p)))"
  by (simp add: bnd_def split: if_splits)

lemma lit_mem: "b \<in> set (lit w s a) \<Longrightarrow> b = a + length w \<and> take (length w) (drop a s) = w"
  by (simp add: lit_def split: if_splits)

lemma id_shape_sub:
  assumes "p + 12 \<le> length s"
  shows "id_shape (sub s p (p + 12)) =
     (s ! p = CHR ''2'' \<and> (s ! (p + 1) = CHR ''3'' \<or> s ! (p + 1) = CHR ''4'')
      \<and> s ! (p + 2) = CHR ''1'' \<and> s ! (p + 3) = CHR ''4''
      \<and> (\<forall>k<8. py_digit (s ! (p + 4 + k))))"
proof -
  have w: "sub s p (p + 12) = take 12 (drop p s)" by (simp add: sub_def)
  have a: "take 1 (take 12 (drop p s)) = take 1 (drop p s)" by simp
  have b: "take 12 (drop p s) ! 1 = s ! (p + 1)" using assms by simp
  have c: "take 2 (drop 2 (take 12 (drop p s))) = take 2 (drop (p + 2) s)"
    by (simp add: drop_take add.commute)
  have d: "drop 4 (take 12 (drop p s)) = take 8 (drop (p + 4) s)"
    by (simp add: drop_take add.commute)
  have e: "length (take 12 (drop p s)) = 12" using assms by simp
  have f: "p + 4 + 8 \<le> length s" "p < length s" "p + 2 + 1 < length s" using assms by simp_all
  have t1: "(take 1 (drop p s) = ''2'') = (s ! p = CHR ''2'')"
    using take1_drop [of p s "CHR ''2''"] f(2) by simp
  note t2 = pattern_14 [OF assms]
  show ?thesis
    unfolding id_shape_def w a b c d e t1 t2 all_take_drop [OF f(1)] by simp
qed

lemma enrollment_at_occurs:
  assumes "id_occurs s p"
  shows "enrollment_at s p = [sub s p (p + 12)]"
proof -
  have len: "p + 12 \<le> length s" using assms by (simp add: id_occurs_def)
  have sh: "s ! p = CHR ''2''" "s ! (p + 1) = CHR ''3'' \<or> s ! (p + 1) = CHR ''4''"
      "s ! (p + 2) = CHR ''1''" "s ! (p + 3) = CHR ''4''" "\<forall>k<8. py_digit (s ! (p + 4 + k))"
    using assms id_shape_sub [OF len] by (simp_all add: id_occurs_def)
  have left: "p = 0 \<or> \<not> py_word (s ! (p - 1))"
    and right: "p + 12 = length s \<or> \<not> py_word (s ! (p + 12))"
    using assms by (simp_all add: id_occurs_def)
  have wp: "py_word (s ! p)" using sh(1) two_is_digit py_digit_word by simp
  have e11: "p + 12 - 1 = p + 4 + 7" by simp
  have "py_digit (s ! (p + 4 + 7))" using sh(5) [THEN spec, of 7] by simp
  then have wl: "py_word (s ! (p + 12 - 1))" unfolding e11 by (rule py_digit_word)
  have b0: "bnd s p = [p]" using left wp len by (auto simp: bnd_def)
  have b1: "lit ''2'' s p = [p + 1]"
    using take1_drop [of p s "CHR ''2''"] sh(1) len by (simp add: lit_def)
  have b2: "cls (\<lambda>x. x = CHR ''3'' \<or> x = CHR ''4'') s (p + 1) = [p + 2]"
    using sh(2) len by (simp add: cls_def)
  have tk: "take (length ''14'') (drop (p + 2) s) = ''14''"
    unfolding length_14 using pattern_14 [OF len] sh(3,4) by blast
  have x: "lit ''14'' s (p + 2) = [p + 2 + length ''14'']" by (simp only: lit_def tk refl if_True)
  have y: "p + 2 + length ''14'' = p + 4" by simp
  have b3: "lit ''14'' s (p + 2) = [p + 4]" unfolding x y by (rule refl)
  have l8: "p + 4 + 8 \<le> length s" using len by simp
  have b4: "rep_n 8 py_digit s (p + 4) = [p + 12]"
    using all_take_drop [OF l8, of py_digit] sh(5) l8 by (simp add: rep_n_def)
  have b5: "bnd s (p + 12) = [p + 12]" using right wl len by (auto simp: bnd_def)
  show ?thesis
    by (simp only: enrollment_at_def b0 b1 b2 b3 b4 b5 List.bind_simps append_Nil2)
qed

lemma enrollment_at_nonempty:
  assumes "enrollment_at s p \<noteq> []"
  shows "id_occurs s p"
proof -
  from assms obtain x where "x \<in> set (enrollment_at s p)" by (cases "enrollment_at s p") auto
  then obtain a b c d e
    where a: "a \<in> set (bnd s p)" and b: "b \<in> set (lit ''2'' s a)"
      and c: "c \<in> set (cls (\<lambda>x. x = CHR ''3'' \<or> x = CHR ''4'') s b)"
      and d: "d \<in> set (lit ''14'' s c)" and e: "e \<in> set (rep_n 8 py_digit s d)"
      and f: "bnd s e \<noteq> []"
    by (auto simp: enrollment_at_def set_list_bind)
  have a': "a = p" and bl: "(0 < p \<and> p \<le> length s \<and> py_word (s ! (p - 1))) \<noteq> (p < length s \<and> py_word (s ! p))"
    using a by (simp_all add: bnd_def split: if_splits)
  have b': "b = p + 1" and t1: "take 1 (drop p s) = ''2''"
    using b a' by (simp_all add: lit_def split: if_splits)
  have c': "c = p + 2" and t2: "p + 1 < length s" "s ! (p + 1) = CHR ''3'' \<or> s ! (p + 1) = CHR ''4''"
    using c b' by (simp_all add: cls_def split: if_splits)
  from lit_mem [OF d] have d0: "d = c + length ''14''"
    and t30: "take (length ''14'') (drop c s) = ''14''" by blast+
  have d': "d = p + 4" using d0 c' by simp
  have t3: "take 2 (drop (p + 2) s) = ''14''" using t30 unfolding length_14 c' .
  have e': "e = p + 12" and len: "p + 4 + 8 \<le> length s" and t4: "list_all py_digit (take 8 (drop (p + 4) s))"
    using e d' by (simp_all add: rep_n_def split: if_splits)
  have br: "(0 < p + 12 \<and> p + 12 \<le> length s \<and> py_word (s ! (p + 12 - 1))) \<noteq> (p + 12 < length s \<and> py_word (s ! (p + 12)))"
    using f e' by (simp add: bnd_def split: if_splits)
  have len12: "p + 12 \<le> length s" using len by simp
  have s0: "s ! p = CHR ''2''" using t1 take1_drop [of p s "CHR ''2''"] by simp
  have s23: "s ! (p + 2) = CHR ''1''" "s ! (p + 3) = CHR ''4''"
    using t3 pattern_14 [OF len12] by blast+
  have s4: "\<forall>k<8. py_digit (s ! (p + 4 + k))" using t4 all_take_drop [OF len, of py_digit] by simp
  have shape: "id_shape (sub s p (p + 12))"
    using id_shape_sub [OF len12] s0 t2(2) s23 s4 by simp
  have wp: "py_word (s ! p)" using s0 two_is_digit py_digit_word by simp
  have e11: "p + 12 - 1 = p + 4 + 7" by simp
  have "py_digit (s ! (p + 4 + 7))" using s4 [THEN spec, of 7] by simp
  then have wl: "py_word (s ! (p + 12 - 1))" unfolding e11 by (rule py_digit_word)
  have left: "p = 0 \<or> \<not> py_word (s ! (p - 1))" using bl wp len12 by auto
  have right: "p + 12 = length s \<or> \<not> py_word (s ! (p + 12))" using br wl len12 by auto
  show ?thesis using len12 shape left right by (simp add: id_occurs_def)
qed

lemma enrollment_match_first:
  assumes "id_occurs s p"
  shows "\<exists>q\<le>p. enrollment_match s = Some (sub s q (q + 12)) \<and> id_occurs s q
            \<and> (\<forall>r<q. \<not> id_occurs s r)"
proof -
  define q where "q = (LEAST q. id_occurs s q)"
  have oq: "id_occurs s q" unfolding q_def using assms by (rule LeastI)
  have qp: "q \<le> p" unfolding q_def using assms by (rule Least_le)
  have before: "\<forall>r<q. \<not> id_occurs s r" unfolding q_def using not_less_Least by blast
  have "q + 12 \<le> length s" using oq by (simp add: id_occurs_def)
  then have "q < Suc (length s)" by simp
  then have cut: "[0 ..< Suc (length s)] = [0 ..< q] @ q # [Suc q ..< Suc (length s)]"
    by (rule upt_cut)
  have "enrollment_at s r = []" if "r < q" for r
    using that before enrollment_at_nonempty [of s r] by blast
  then have "\<forall>r \<in> set [0 ..< q]. enrollment_at s r = []" by simp
  then have "first_match (enrollment_at s) ([0 ..< q] @ q # [Suc q ..< Suc (length s)])
      = first_match (enrollment_at s) (q # [Suc q ..< Suc (length s)])"
    by (rule first_match_skip)
  also have "\<dots> = Some (sub s q (q + 12))"
    using enrollment_at_occurs [OF oq] by simp
  finally have "enrollment_match s = Some (sub s q (q + 12))"
    by (simp only: enrollment_match_def re_search_def cut)
  then show ?thesis using qp oq before by blast
qed

lemma enrollment_match_None: "(enrollment_match s = None) = (\<forall>p. \<not> id_occurs s p)"
proof
  assume n: "enrollment_match s = None"
  show "\<forall>p. \<not> id_occurs s p"
  proof
    fix p show "\<not> id_occurs s p"
    proof
      assume "id_occurs s p"
      from enrollment_match_first [OF this] show False using n by auto
    qed
  qed
next
  assume "\<forall>p. \<not> id_occurs s p"
  then have "\<forall>p \<in> set [0 ..< Suc (length s)]. enrollment_at s p = []"
    using enrollment_at_nonempty by blast
  then show "enrollment_match s = None"
    by (simp only: enrollment_match_def re_search_def first_match_None)
qed

text \<open>
  Claim C7, as the code has it. When a line holds, at some position, a substring of the
  identifier's shape that is delimited on both sides (the line starts or ends there, or
  the neighbour is no letter, digit or underscore), the scanner returns the first such
  delimited occurrence of the line, which is at that position or to the left of it. It
  reports no identifier exactly when the line has no delimited occurrence.
\<close>

theorem scanner_returns_first_delimited_identifier:
  "(p + 12 \<le> length line \<and> id_shape (sub line p (p + 12))
      \<and> (p = 0 \<or> \<not> py_word (line ! (p - 1)))
      \<and> (p + 12 = length line \<or> \<not> py_word (line ! (p + 12)))
     \<longrightarrow> (\<exists>q\<le>p. enrollment_match line = Some (sub line q (q + 12))
            \<and> id_occurs line q \<and> (\<forall>r<q. \<not> id_occurs line r)))
   \<and> ((enrollment_match line = None) = (\<forall>q. \<not> id_occurs line q))"
  using enrollment_match_first [of line p] enrollment_match_None [of line]
  unfolding id_occurs_def [of line p] by blast

text \<open>A line with two identifiers: the occurrence at position 15 is given, the one at 2 is returned.\<close>

theorem scanner_returns_first_delimited_identifier_witness:
  "enrollment_match ''x 231430142054 241412345678'' = Some ''231430142054''
   \<and> (\<exists>q\<le>15. enrollment_match ''x 231430142054 241412345678''
                  = Some (sub ''x 231430142054 241412345678'' q (q + 12)))"
proof -
  have h: "15 + 12 \<le> length ''x 231430142054 241412345678''
      \<and> id_shape (sub ''x 231430142054 241412345678'' 15 (15 + 12))
      \<and> ((15::nat) = 0 \<or> \<not> py_word (''x 231430142054 241412345678'' ! (15 - 1)))
      \<and> (15 + 12 = length ''x 231430142054 241412345678''
          \<or> \<not> py_word (''x 231430142054 241412345678'' ! (15 + 12)))"
    by code_simp
  have v: "enrollment_match ''x 231430142054 241412345678'' = Some ''231430142054''"
    by code_simp
  from scanner_returns_first_delimited_identifier
         [of 15 "''x 231430142054 241412345678''", THEN conjunct1, rule_format, OF h]
  have "\<exists>q\<le>15. enrollment_match ''x 231430142054 241412345678''
                  = Some (sub ''x 231430142054 241412345678'' q (q + 12))"
    by blast
  then show ?thesis using v by blast
qed

text \<open>
  Claim C7, as it is stated, fails: the surrounding characters matter. A code of the
  right shape that follows a letter, or that is followed by one more digit, is not found.
\<close>

theorem embedded_identifier_counterexample:
  "id_shape (sub ''A231430142054'' 1 13) \<and> enrollment_match ''A231430142054'' = None
   \<and> id_shape (sub ''2314301420541'' 0 12) \<and> enrollment_match ''2314301420541'' = None"
  by code_simp

section \<open>Ranks and sorted tables\<close>












section \<open>The cumulative table\<close>
















section \<open>The ranking rule\<close>



section \<open>The pivot table\<close>










section \<open>The cells of the exam-wise view\<close>





end
